theory Spec2Isabelle
  imports Main "HOL-Library.Word"
begin

section \<open>Token generators of zclwrite and the transformer chain\<close>

text \<open>
  A shallow embedding of the two source files: the tree of token generators with its
  traversal \<open>EachToken\<close>, the methods \<open>Tokens\<close> and \<open>WriteTo\<close> built on it, and
  \<open>transform.Chain\<close>.

  Conventions of the embedding.
  \<^item> A Go pointer that the code reads but never writes through is the value it points to,
    wrapped in \<open>option\<close>: \<open>None\<close> is the nil pointer.
  \<^item> A Go slice is a list. The nil slice and the empty slice are both \<open>[]\<close>: \<open>range\<close> and
    \<open>len\<close>, the only operations the code applies to them, do not tell them apart.
  \<^item> Go's \<open>int\<close> is \<open>int\<close>. The space loop only subtracts 40 from a positive counter,
    which cannot wrap around. The byte count adds what the sink reports; it is Go's
    count as long as no addition leaves the range of Go's \<open>int\<close>, and every statement
    about the value of a count that the sink decides carries that condition
    (\<open>adds_fit\<close>) as a hypothesis.
  \<^item> A run-time panic (a nil dereference) is the left summand of the result, so a
    traversal either panics or returns the state its callback has built.
  \<^item> A callback is a Go closure that updates captured variables; here it takes the
    captured variables as a state and returns them updated.
\<close>

subsection \<open>Data model\<close>

type_synonym byte = "8 word"

text \<open>
  \<open>zclsyntax.TokenType\<close> is declared in another package; the code only stores it, so it
  is the type parameter \<open>'ty\<close>.
\<close>

record 'ty Token =
  Type :: 'ty
  Bytes :: "byte list"
  SpacesBefore :: int

datatype panic = NilDereference

text \<open>
  \<open>TokenGen\<close> is an interface. Its values are the three implementations of this file,
  \<open>*Token\<close>, \<open>Tokens\<close> and \<open>*TokenSeq\<close>, and the nil interface value, on which a method
  call panics. \<open>Tokens\<close> is \<open>[]*Token\<close> and \<open>TokenSeq\<close> is \<open>[]TokenGen\<close>.
\<close>

datatype 'ty TokenGen =
    TokenPtr "'ty Token option"
  | TokensVal "'ty Token option list"
  | TokenSeqPtr "'ty TokenGen list option"
  | NilTokenGen

type_synonym ('ty, 's) TokenCallback = "'ty Token option \<Rightarrow> 's \<Rightarrow> panic + 's"

subsection \<open>EachToken\<close>

definition Token_EachToken ::
  "'ty Token option \<Rightarrow> ('ty, 's) TokenCallback \<Rightarrow> 's \<Rightarrow> panic + 's" where
  "Token_EachToken t cb s = cb t s"

fun Tokens_EachToken ::
  "'ty Token option list \<Rightarrow> ('ty, 's) TokenCallback \<Rightarrow> 's \<Rightarrow> panic + 's" where
  "Tokens_EachToken [] cb s = Inr s"
| "Tokens_EachToken (t # ts) cb s =
     (case cb t s of Inl p \<Rightarrow> Inl p | Inr s' \<Rightarrow> Tokens_EachToken ts cb s')"

text \<open>
  \<open>EachToken\<close> is the call through the interface, \<open>TokenSeq_EachToken\<close> the method of
  \<open>*TokenSeq\<close> with its nil check, and \<open>TokenSeq_range\<close> its loop over the children.
\<close>

fun EachToken :: "'ty TokenGen \<Rightarrow> ('ty, 's) TokenCallback \<Rightarrow> 's \<Rightarrow> panic + 's"
  and TokenSeq_EachToken ::
    "'ty TokenGen list option \<Rightarrow> ('ty, 's) TokenCallback \<Rightarrow> 's \<Rightarrow> panic + 's"
  and TokenSeq_range ::
    "'ty TokenGen list \<Rightarrow> ('ty, 's) TokenCallback \<Rightarrow> 's \<Rightarrow> panic + 's" where
  "EachToken (TokenPtr t) cb s = Token_EachToken t cb s"
| "EachToken (TokensVal ts) cb s = Tokens_EachToken ts cb s"
| "EachToken (TokenSeqPtr ts) cb s = TokenSeq_EachToken ts cb s"
| "EachToken NilTokenGen cb s = Inl NilDereference"
| "TokenSeq_EachToken None cb s = Inr s"
| "TokenSeq_EachToken (Some gens) cb s = TokenSeq_range gens cb s"
| "TokenSeq_range [] cb s = Inr s"
| "TokenSeq_range (gen # gens) cb s =
     (case EachToken gen cb s of Inl p \<Rightarrow> Inl p | Inr s' \<Rightarrow> TokenSeq_range gens cb s')"

text \<open>
  The callback of the method \<open>Tokens\<close> appends the token it is given. \<open>flatten\<close> runs
  any generator with that callback: the tokens the generator passes to its callback,
  in the order of the calls.
\<close>

definition append_token :: "('ty, 'ty Token option list) TokenCallback" where
  "append_token token tokens = Inr (tokens @ [token])"

definition TokenSeq_Tokens :: "'ty TokenGen list option \<Rightarrow> panic + 'ty Token option list" where
  "TokenSeq_Tokens ts = TokenSeq_EachToken ts append_token []"

definition flatten :: "'ty TokenGen \<Rightarrow> panic + 'ty Token option list" where
  "flatten gen = EachToken gen append_token []"

definition TokenSeqEmpty :: "'ty TokenGen list" where
  "TokenSeqEmpty = []"

text \<open>
  A generator is \<open>nil_free\<close> when no nil interface value occurs in it: it is built from
  \<open>*Token\<close>, \<open>Tokens\<close> and \<open>*TokenSeq\<close> values only (nil pointers included).
\<close>

fun nil_free :: "'ty TokenGen \<Rightarrow> bool"
  and nil_free_list :: "'ty TokenGen list \<Rightarrow> bool" where
  "nil_free (TokenPtr t) = True"
| "nil_free (TokensVal ts) = True"
| "nil_free (TokenSeqPtr None) = True"
| "nil_free (TokenSeqPtr (Some gens)) = nil_free_list gens"
| "nil_free NilTokenGen = False"
| "nil_free_list [] = True"
| "nil_free_list (gen # gens) = (nil_free gen \<and> nil_free_list gens)"

subsection \<open>WriteTo\<close>

text \<open>
  An \<open>io.Writer\<close> is any state \<open>'w\<close> with a \<open>Write\<close> that takes the bytes and returns the
  new state, the count it reports and an error or nil.
\<close>

type_synonym ('w, 'e) Writer = "'w \<Rightarrow> byte list \<Rightarrow> 'w \<times> int \<times> 'e option"

definition spaces :: "byte list" where
  "spaces = replicate 40 0x20"

text \<open>
  The loop over \<open>spacesBefore\<close> either leaves the callback through its \<open>return\<close> or
  falls through to the write of the token's bytes.
\<close>

datatype 'a loop_exit = is_Return: Return (exit_state: 'a) | Fallthrough (exit_state: 'a)

function space_loop ::
  "('w, 'e) Writer \<Rightarrow> int \<Rightarrow> 'w \<times> int \<times> 'e option \<Rightarrow> ('w \<times> int \<times> 'e option) loop_exit" where
  "space_loop wr spacesBefore (w, n, err) =
     (if spacesBefore > 0 then
        (let thisChunk =
               (if spacesBefore > int (length spaces) then int (length spaces) else spacesBefore)
         in case wr w (take (nat thisChunk) spaces) of
              (w', thisN, err') \<Rightarrow>
                if err' \<noteq> None then Return (w', n + thisN, err')
                else space_loop wr (spacesBefore - int (length spaces)) (w', n + thisN, err'))
      else Fallthrough (w, n, err))"
  by pat_completeness auto
termination
  by (relation "measure (\<lambda>(wr, spacesBefore, st). nat spacesBefore)") (auto simp: spaces_def)

declare space_loop.simps [simp del]

definition WriteTo_callback ::
  "('w, 'e) Writer \<Rightarrow> ('ty, 'w \<times> int \<times> 'e option) TokenCallback" where
  "WriteTo_callback wr token st =
     (case st of (w, n, err) \<Rightarrow>
        if err \<noteq> None then Inr st
        else
          (case token of
             None \<Rightarrow> Inl NilDereference
           | Some t \<Rightarrow>
               (case space_loop wr (SpacesBefore t) (w, n, err) of
                  Return st' \<Rightarrow> Inr st'
                | Fallthrough (w1, n1, err1) \<Rightarrow>
                    (case wr w1 (Bytes t) of
                       (w2, thisN, err2) \<Rightarrow> Inr (w2, n1 + thisN, err2)))))"

definition WriteTo ::
  "'ty TokenGen list option \<Rightarrow> ('w, 'e) Writer \<Rightarrow> 'w \<Rightarrow> panic + 'w \<times> int \<times> 'e option" where
  "WriteTo ts wr w = TokenSeq_EachToken ts (WriteTo_callback wr) (w, 0, None)"

subsection \<open>Sinks used to observe WriteTo\<close>

text \<open>
  \<open>buffer_Write\<close> behaves as \<open>bytes.Buffer\<close> does: it keeps every byte and reports the
  full length and no error.
\<close>

definition buffer_Write :: "(byte list, 'e) Writer" where
  "buffer_Write buf p = (buf @ p, int (length p), None)"

text \<open>
  \<open>recording wr\<close> is a test double around any writer \<open>wr\<close>: it passes each \<open>Write\<close> on
  to \<open>wr\<close> and appends the call, with its bytes and with what \<open>wr\<close> returned, to a log.
\<close>

datatype 'e call = Call (call_bytes: "byte list") (call_count: int) (call_err: "'e option")

definition recording :: "('w, 'e) Writer \<Rightarrow> ('w \<times> 'e call list, 'e) Writer" where
  "recording wr st p =
     (case st of (w, log) \<Rightarrow>
        (case wr w p of (w', k, e) \<Rightarrow> ((w', log @ [Call p k e]), k, e)))"

text \<open>
  \<open>limited_Write\<close> is a fault-injecting sink with room for a fixed number of bytes: a
  write that does not fit keeps what fits and reports that amount with an error.
  \<open>short_Write\<close> keeps at most one byte of each write and reports no error.
\<close>

datatype sink_error = ErrFull

definition limited_Write :: "(byte list \<times> nat, sink_error) Writer" where
  "limited_Write st p =
     (case st of (buf, room) \<Rightarrow>
        if length p \<le> room then ((buf @ p, room - length p), int (length p), None)
        else ((buf @ take room p, 0), int room, Some ErrFull))"

definition short_Write :: "(byte list, 'e) Writer" where
  "short_Write buf p = (buf @ take 1 p, int (min 1 (length p)), None)"

text \<open>\<open>discard_Write\<close> behaves as \<open>io.Discard\<close> does: it keeps nothing and reports success.\<close>

definition discard_Write :: "(unit, 'e) Writer" where
  "discard_Write u p = ((), int (length p), None)"

text \<open>
  \<open>counting cb\<close> is a test double around any callback \<open>cb\<close>: it counts the calls of
  \<open>cb\<close> that return.
\<close>

definition counting :: "('ty, 's) TokenCallback \<Rightarrow> ('ty, nat \<times> 's) TokenCallback" where
  "counting cb token st =
     (case st of (k, s) \<Rightarrow>
        (case cb token s of Inl p \<Rightarrow> Inl p | Inr s' \<Rightarrow> Inr (Suc k, s')))"

text \<open>
  Go's \<open>int\<close> has 32 or 64 bits, by platform. \<open>int_fits bits x\<close> says that \<open>x\<close> is a value
  of an \<open>int\<close> of \<open>bits\<close> bits. \<open>adds_fit bits n cs\<close> says that the counts \<open>cs\<close> are such
  values and that adding them to \<open>n\<close> one after the other, as \<open>n += thisN\<close> does,
  never leaves that range: the additions of the code then do not wrap around, and its
  count is the count of this embedding.
\<close>

definition int_fits :: "nat \<Rightarrow> int \<Rightarrow> bool" where
  "int_fits bits x \<longleftrightarrow> - (2 ^ (bits - 1)) \<le> x \<and> x < 2 ^ (bits - 1)"



text \<open>
  Following the spec's words for a token's serialization: \<open>spaces_before\<close> space
  characters followed by the token's bytes.
\<close>

definition token_text :: "'ty Token \<Rightarrow> byte list" where
  "token_text t = replicate (nat (SpacesBefore t)) 0x20 @ Bytes t"

subsection \<open>Tokenizing\<close>

text \<open>
  Modelled from the spec: the tokenizer that turns source bytes into the tokens of a tree
  is not among the source files. The spec makes a token a classified byte run together
  with the count of the literal space characters that preceded it, gives everything that
  is not a space (tabs, newlines, comments) a token of its own, and lets a token with an
  empty payload carry the spaces before it. The classification and the extent of a byte
  run belong to the external lexer: \<open>lexer\<close> returns them for the input that starts at a
  byte that is not a space, and a run has at least one byte and ends within the input.
  The spaces at the end of the input are those of an end marker of type \<open>eof\<close> with no
  bytes.
\<close>

function tokenize :: "(byte list \<Rightarrow> 'ty \<times> nat) \<Rightarrow> 'ty \<Rightarrow> byte list \<Rightarrow> 'ty Token list" where
  "tokenize lexer eof src =
     (let k = length (takeWhile (\<lambda>c. c = 0x20) src);
          rest = drop k src
      in if rest = [] then [\<lparr>Type = eof, Bytes = [], SpacesBefore = int k\<rparr>]
         else
           (case lexer rest of
              (ty, len) \<Rightarrow>
                (let m = max 1 (min len (length rest))
                 in \<lparr>Type = ty, Bytes = take m rest, SpacesBefore = int k\<rparr> #
                    tokenize lexer eof (drop m rest))))"
  by pat_completeness auto
termination
  by (relation "measure (\<lambda>(lexer, eof, src). length src)") auto

declare tokenize.simps [simp del]

subsection \<open>Transformers\<close>

text \<open>
  \<open>zcl.Body\<close> is declared in another package and is the type parameter \<open>'b\<close>. A
  \<open>Transformer\<close> is an interface with the one method \<open>TransformBody\<close>, which by its
  documentation cannot fail and does not change the body it is given: a function on
  bodies. Its implementations in this file are \<open>TransformerFunc\<close> and \<open>chain\<close>.
\<close>

datatype 'b Transformer =
    TransformerFunc "'b \<Rightarrow> 'b"
  | chain "'b Transformer list"

fun TransformBody :: "'b Transformer \<Rightarrow> 'b \<Rightarrow> 'b"
  and chain_range :: "'b Transformer list \<Rightarrow> 'b \<Rightarrow> 'b" where
  "TransformBody (TransformerFunc f) inp = f inp"
| "TransformBody (chain c) body = chain_range c body"
| "chain_range [] body = body"
| "chain_range (t # c) body = chain_range c (TransformBody t body)"

definition Chain :: "'b Transformer list \<Rightarrow> 'b Transformer" where
  "Chain c = chain c"

subsection \<open>Values for the examples\<close>

definition tokA :: "nat Token" where
  "tokA = \<lparr>Type = 1, Bytes = [0x61], SpacesBefore = 0\<rparr>"

definition tokB :: "nat Token" where
  "tokB = \<lparr>Type = 2, Bytes = [0x3D], SpacesBefore = 1\<rparr>"

definition tokC :: "nat Token" where
  "tokC = \<lparr>Type = 3, Bytes = [0x31, 0x32], SpacesBefore = 41\<rparr>"

definition tokD :: "nat Token" where
  "tokD = \<lparr>Type = 4, Bytes = [0x7B], SpacesBefore = 81\<rparr>"

definition failing_tree :: "nat TokenGen list option" where
  "failing_tree = Some [TokenPtr (Some tokA), TokensVal [Some tokC, Some tokB]]"

section \<open>Properties of the traversal\<close>

subsection \<open>Loops over appended lists, and the appending callback\<close>

lemma Tokens_EachToken_append:
  "Tokens_EachToken (xs @ ys) cb s =
     (case Tokens_EachToken xs cb s of Inl p \<Rightarrow> Inl p | Inr s' \<Rightarrow> Tokens_EachToken ys cb s')"
  by (induction xs arbitrary: s) (auto split: sum.splits)

lemma TokenSeq_range_append:
  "TokenSeq_range (xs @ ys) cb s =
     (case TokenSeq_range xs cb s of Inl p \<Rightarrow> Inl p | Inr s' \<Rightarrow> TokenSeq_range ys cb s')"
  by (induction xs arbitrary: s) (auto split: sum.splits)

lemma Tokens_EachToken_append_token:
  "Tokens_EachToken ts append_token acc = Inr (acc @ ts)"
  by (induction ts arbitrary: acc) (auto simp: append_token_def)

lemma TokenSeq_range_shift:
  assumes "\<And>gen acc acc'. gen \<in> set gens \<Longrightarrow>
             EachToken gen append_token (acc @ acc') =
               (case EachToken gen append_token acc' of
                  Inl p \<Rightarrow> Inl p | Inr ts \<Rightarrow> Inr (acc @ ts))"
  shows "TokenSeq_range gens append_token (acc @ acc') =
           (case TokenSeq_range gens append_token acc' of
              Inl p \<Rightarrow> Inl p | Inr ts \<Rightarrow> Inr (acc @ ts))"
  using assms
proof (induction gens arbitrary: acc')
  case Nil
  then show ?case by simp
next
  case (Cons gen gens)
  have head: "EachToken gen append_token (acc @ acc') =
                (case EachToken gen append_token acc' of
                   Inl p \<Rightarrow> Inl p | Inr ts \<Rightarrow> Inr (acc @ ts))"
    by (rule Cons.prems) simp
  have tail: "TokenSeq_range gens append_token (acc @ r) =
                (case TokenSeq_range gens append_token r of
                   Inl p \<Rightarrow> Inl p | Inr ts \<Rightarrow> Inr (acc @ ts))" for r
    by (rule Cons.IH) (simp add: Cons.prems)
  show ?case
    by (cases "EachToken gen append_token acc'") (simp_all add: head tail)
qed

lemma EachToken_shift:
  "EachToken gen append_token (acc @ acc') =
     (case EachToken gen append_token acc' of Inl p \<Rightarrow> Inl p | Inr ts \<Rightarrow> Inr (acc @ ts))"
proof (induction gen arbitrary: acc acc')
  case (TokenPtr t)
  then show ?case by (simp add: Token_EachToken_def append_token_def)
next
  case (TokensVal ts)
  then show ?case by (simp add: Tokens_EachToken_append_token)
next
  case (TokenSeqPtr ts)
  show ?case
  proof (cases ts)
    case None
    then show ?thesis by simp
  next
    case (Some gens)
    have "TokenSeq_range gens append_token (acc @ acc') =
            (case TokenSeq_range gens append_token acc' of
               Inl p \<Rightarrow> Inl p | Inr ts \<Rightarrow> Inr (acc @ ts))"
      by (rule TokenSeq_range_shift) (simp add: TokenSeqPtr.IH Some)
    then show ?thesis by (simp add: Some)
  qed
next
  case NilTokenGen
  then show ?case by simp
qed

lemma EachToken_append_token:
  "EachToken gen append_token acc =
     (case flatten gen of Inl p \<Rightarrow> Inl p | Inr ts \<Rightarrow> Inr (acc @ ts))"
  using EachToken_shift [of gen acc "[]"] by (simp add: flatten_def)

lemma TokenSeq_range_append_token:
  "TokenSeq_range gens append_token acc =
     (case flatten (TokenSeqPtr (Some gens)) of Inl p \<Rightarrow> Inl p | Inr ts \<Rightarrow> Inr (acc @ ts))"
  using EachToken_append_token [of "TokenSeqPtr (Some gens)" acc] by simp

lemma flatten_simps:
  "flatten (TokenPtr t) = Inr [t]"
  "flatten (TokensVal ts) = Inr ts"
  "flatten (TokenSeqPtr None) = Inr []"
  "flatten NilTokenGen = Inl NilDereference"
  "flatten (TokenSeqPtr (Some [])) = Inr []"
  by (simp_all add: flatten_def Token_EachToken_def append_token_def
      Tokens_EachToken_append_token)

lemma flatten_Cons:
  "flatten (TokenSeqPtr (Some (gen # gens))) =
     (case flatten gen of
        Inl p \<Rightarrow> Inl p
      | Inr ts \<Rightarrow>
          (case flatten (TokenSeqPtr (Some gens)) of
             Inl p \<Rightarrow> Inl p | Inr ts' \<Rightarrow> Inr (ts @ ts')))"
proof -
  have "flatten (TokenSeqPtr (Some (gen # gens))) =
          (case flatten gen of
             Inl p \<Rightarrow> Inl p | Inr ts \<Rightarrow> TokenSeq_range gens append_token ts)"
    by (simp add: flatten_def)
  then show ?thesis
    by (simp add: TokenSeq_range_append_token split: sum.splits)
qed

text \<open>Whatever the callback, a generator that flattens to \<open>ts\<close> calls it on \<open>ts\<close> in order.\<close>

lemma TokenSeq_range_calls:
  assumes "\<And>gen ts s. gen \<in> set gens \<Longrightarrow> flatten gen = Inr ts \<Longrightarrow>
             EachToken gen cb s = Tokens_EachToken ts cb s"
  shows "flatten (TokenSeqPtr (Some gens)) = Inr ts \<Longrightarrow>
           TokenSeq_range gens cb s = Tokens_EachToken ts cb s"
  using assms
proof (induction gens arbitrary: ts s)
  case Nil
  then show ?case by (simp add: flatten_simps)
next
  case (Cons gen gens)
  from Cons.prems(1) obtain t1 t2 where
    t1: "flatten gen = Inr t1" and t2: "flatten (TokenSeqPtr (Some gens)) = Inr t2"
    and ts: "ts = t1 @ t2"
    by (auto simp: flatten_Cons split: sum.splits)
  have head: "EachToken gen cb s = Tokens_EachToken t1 cb s"
    by (rule Cons.prems(2)) (simp_all add: t1)
  have tail: "TokenSeq_range gens cb s' = Tokens_EachToken t2 cb s'" for s'
    by (rule Cons.IH [OF t2]) (simp add: Cons.prems(2))
  show ?case
    by (simp add: ts Tokens_EachToken_append head tail split: sum.splits)
qed

lemma EachToken_calls:
  "flatten gen = Inr ts \<Longrightarrow> EachToken gen cb s = Tokens_EachToken ts cb s"
proof (induction gen arbitrary: ts s)
  case (TokenPtr t)
  then show ?case by (auto simp: flatten_simps Token_EachToken_def split: sum.splits)
next
  case (TokensVal x)
  then show ?case by (simp add: flatten_simps)
next
  case (TokenSeqPtr x)
  show ?case
  proof (cases x)
    case None
    with TokenSeqPtr.prems show ?thesis by (simp add: flatten_simps)
  next
    case (Some gens)
    have "TokenSeq_range gens cb s = Tokens_EachToken ts cb s"
      using TokenSeqPtr.prems
      by (intro TokenSeq_range_calls) (simp_all add: Some TokenSeqPtr.IH)
    then show ?thesis by (simp add: Some)
  qed
next
  case NilTokenGen
  then show ?case by (simp add: flatten_simps)
qed

lemma flatten_TokenSeq_concat:
  "map flatten cs = map Inr tss \<Longrightarrow> flatten (TokenSeqPtr (Some cs)) = Inr (concat tss)"
proof (induction cs arbitrary: tss)
  case Nil
  then show ?case by (simp add: flatten_simps)
next
  case (Cons c cs)
  then show ?case by (cases tss) (auto simp: flatten_Cons)
qed

subsection \<open>Generators without nil interface values do not panic\<close>

lemma nil_free_flatten:
  fixes gen :: "'ty TokenGen" and gens :: "'ty TokenGen list"
  shows "nil_free gen \<Longrightarrow> \<exists>ts. flatten gen = Inr ts"
    and "nil_free_list gens \<Longrightarrow> \<exists>ts. flatten (TokenSeqPtr (Some gens)) = Inr ts"
proof (induction gen and gens rule: nil_free_nil_free_list.induct)
  case (7 gen gens)
  then obtain t1 t2 where "flatten gen = Inr t1" "flatten (TokenSeqPtr (Some gens)) = Inr t2"
    by auto
  then show ?case by (simp add: flatten_Cons)
qed (simp_all add: flatten_simps)

lemma nil_free_list_flatten:
  "nil_free_list cs \<Longrightarrow> \<exists>tss. map flatten cs = map Inr tss"
proof (induction cs)
  case Nil
  then show ?case by simp
next
  case (Cons c cs)
  then obtain ts tss where "flatten c = Inr ts" "map flatten cs = map Inr tss"
    using nil_free_flatten(1) [of c] by auto
  then have "map flatten (c # cs) = map Inr (ts # tss)" by simp
  then show ?case by (rule exI)
qed

subsection \<open>Composition of a token sequence\<close>

text \<open>
  Claim C1. For a \<open>TokenSeq\<close> with children \<open>cs\<close>, nested to any depth and in any mix
  of \<open>*Token\<close>, \<open>Tokens\<close> and \<open>*TokenSeq\<close> children, every child passes some token
  sequence to its callback, and the sequence that \<open>EachToken\<close> of the \<open>TokenSeq\<close> passes
  to its callback is the concatenation of the children's sequences in child order: that
  is what the appending callback collects, and any other callback \<open>cb\<close> is called on
  exactly these tokens, one after the other.
\<close>

theorem EachToken_TokenSeq_concat:
  assumes "nil_free_list cs"
  shows "\<exists>tss. map flatten cs = map Inr tss \<and>
           flatten (TokenSeqPtr (Some cs)) = Inr (concat tss) \<and>
           EachToken (TokenSeqPtr (Some cs)) cb s = Tokens_EachToken (concat tss) cb s"
proof -
  from assms obtain tss where tss: "map flatten cs = map Inr tss"
    using nil_free_list_flatten by blast
  then have flat: "flatten (TokenSeqPtr (Some cs)) = Inr (concat tss)"
    by (rule flatten_TokenSeq_concat)
  then have "EachToken (TokenSeqPtr (Some cs)) cb s = Tokens_EachToken (concat tss) cb s"
    by (rule EachToken_calls)
  with tss flat show ?thesis by (intro exI [of _ tss] conjI)
qed

theorem EachToken_TokenSeq_concat_witness:
  "nil_free_list [TokenPtr (Some tokA), TokensVal [Some tokB, Some tokC],
      TokenSeqPtr (Some [TokenSeqPtr None, TokenPtr (Some tokC)])] \<and>
   flatten (TokenSeqPtr (Some [TokenPtr (Some tokA), TokensVal [Some tokB, Some tokC],
      TokenSeqPtr (Some [TokenSeqPtr None, TokenPtr (Some tokC)])])) =
     Inr ([Some tokA] @ [Some tokB, Some tokC] @ [Some tokC])"
  using EachToken_TokenSeq_concat [of "[TokenPtr (Some tokA), TokensVal [Some tokB, Some tokC],
      TokenSeqPtr (Some [TokenSeqPtr None, TokenPtr (Some tokC)])]"]
  by (auto simp: flatten_simps flatten_Cons)

subsection \<open>The empty sequence\<close>

text \<open>
  Claim C5. \<open>EachToken\<close> on \<open>TokenSeqEmpty\<close>, on a nil \<open>*TokenSeq\<close> and on a
  \<open>TokenSeq\<close> whose child list is nil or empty returns without a panic and leaves the
  state of every callback as it was, so the callback has not been called: the method
  \<open>Tokens\<close> collects no token. A sequence with \<open>TokenSeqEmpty\<close> inserted among its
  children, at any place, gives every callback the same result as the sequence without
  it, and flattens to the same tokens.
\<close>

theorem EachToken_empty:
  "TokenSeq_EachToken (Some TokenSeqEmpty) cb s = Inr s \<and>
   TokenSeq_EachToken None cb s = Inr s \<and>
   TokenSeq_EachToken (Some []) cb s = Inr s \<and>
   TokenSeq_Tokens (Some TokenSeqEmpty) = Inr [] \<and>
   TokenSeq_Tokens None = Inr [] \<and>
   EachToken (TokenSeqPtr (Some (before @ TokenSeqPtr (Some TokenSeqEmpty) # after))) cb s =
     EachToken (TokenSeqPtr (Some (before @ after))) cb s \<and>
   flatten (TokenSeqPtr (Some (before @ TokenSeqPtr (Some TokenSeqEmpty) # after))) =
     flatten (TokenSeqPtr (Some (before @ after)))"
  by (simp add: TokenSeqEmpty_def TokenSeq_Tokens_def flatten_def TokenSeq_range_append
      split: sum.splits)

section \<open>Properties of WriteTo\<close>

subsection \<open>Traversals that panic, traversals that return\<close>




lemma TokenSeq_Tokens_flatten: "TokenSeq_Tokens ts = flatten (TokenSeqPtr ts)"
  by (simp add: TokenSeq_Tokens_def flatten_def)

lemma WriteTo_tokens:
  "TokenSeq_Tokens ts = Inr toks \<Longrightarrow>
     WriteTo ts wr w = Tokens_EachToken toks (WriteTo_callback wr) (w, 0, None)"
  using EachToken_calls [of "TokenSeqPtr ts" toks "WriteTo_callback wr" "(w, 0, None)"]
  by (simp add: WriteTo_def TokenSeq_Tokens_flatten)


lemma exit_state_if: "exit_state ((if b then Return else Fallthrough) st) = st"
  by simp

subsection \<open>The space loop\<close>

lemma spaces_take: "0 < k \<Longrightarrow>
  take (nat (if int (length spaces) < k then int (length spaces) else k)) spaces =
    replicate (nat (min k 40)) 0x20"
  by (auto simp: spaces_def min_def)

lemma space_loop_done: "k \<le> 0 \<Longrightarrow> space_loop wr k st = Fallthrough st"
  by (cases st) (simp add: space_loop.simps)

lemma space_loop_step:
  assumes "0 < k" and "wr w (replicate (nat (min k 40)) 0x20) = (w', c, e)"
  shows "space_loop wr k (w, n, e0) =
           (if e \<noteq> None then Return (w', n + c, e)
            else space_loop wr (k - 40) (w', n + c, e))"
  using assms by (subst space_loop.simps) (simp add: spaces_take Let_def, simp add: spaces_def)

lemma recording_eq:
  "wr w p = (w', c, e) \<Longrightarrow> recording wr (w, calls) p = ((w', calls @ [Call p c e]), c, e)"
  by (simp add: recording_def)

lemma space_loop_recording:
  "\<exists>w' new.
     space_loop (recording wr) k ((w, calls), n, e0) =
       (if new \<noteq> [] \<and> call_err (last new) \<noteq> None then Return else Fallthrough)
         ((w', calls @ new), n + sum_list (map call_count new),
          if new = [] then e0 else call_err (last new)) \<and>
     (\<forall>c \<in> set (butlast new). call_err c = None) \<and>
     (\<forall>c \<in> set new. \<exists>m. 1 \<le> m \<and> m \<le> 40 \<and> call_bytes c = replicate m 0x20) \<and>
     (\<forall>c \<in> set new. \<exists>v v'. wr v (call_bytes c) = (v', call_count c, call_err c)) \<and>
     (\<exists>m. int m \<le> max k 0 \<and> concat (map call_bytes new) = replicate m 0x20 \<and>
          ((new = [] \<or> call_err (last new) = None) \<longrightarrow> int m = max k 0))"
proof (induction "nat k" arbitrary: k w calls n e0 rule: less_induct)
  case less
  show ?case
  proof (cases "0 < k")
    case False
    then have "space_loop (recording wr) k ((w, calls), n, e0) = Fallthrough ((w, calls), n, e0)"
      by (simp add: space_loop_done)
    with False show ?thesis
      by (intro exI [of _ w] exI [of _ "[]"]) simp
  next
    case True
    define chunk :: "byte list" where "chunk = replicate (nat (min k 40)) 0x20"
    obtain w1 c e where wr: "wr w chunk = (w1, c, e)"
      by (cases "wr w chunk") auto
    define call0 where "call0 = Call chunk c e"
    have step: "space_loop (recording wr) k ((w, calls), n, e0) =
                  (if e \<noteq> None then Return ((w1, calls @ [call0]), n + c, e)
                   else space_loop (recording wr) (k - 40) ((w1, calls @ [call0]), n + c, e))"
      using True wr unfolding chunk_def call0_def
      by (intro space_loop_step recording_eq)
    have real: "\<exists>v v'. wr v (call_bytes call0) = (v', call_count call0, call_err call0)"
      using wr by (auto simp: call0_def)
    have len: "1 \<le> nat (min k 40)" "nat (min k 40) \<le> 40" "int (nat (min k 40)) \<le> max k 0"
      using True by auto
    show ?thesis
    proof (cases "e = None")
      case False
      with step len real show ?thesis
        by (intro exI [of _ w1] exI [of _ "[call0]"])
           (auto simp: call0_def chunk_def intro!: exI [of _ "nat (min k 40)"])
    next
      case None: True
      have "nat (k - 40) < nat k" using True by simp
      from less [OF this, of w1 "calls @ [call0]" "n + c" e]
      obtain w' new m where
        run: "space_loop (recording wr) (k - 40) ((w1, calls @ [call0]), n + c, e) =
               (if new \<noteq> [] \<and> call_err (last new) \<noteq> None then Return else Fallthrough)
                 ((w', (calls @ [call0]) @ new), (n + c) + sum_list (map call_count new),
                  if new = [] then e else call_err (last new))"
        and ok: "\<forall>c \<in> set (butlast new). call_err c = None"
        and sz: "\<forall>c \<in> set new. \<exists>m. 1 \<le> m \<and> m \<le> 40 \<and> call_bytes c = replicate m 0x20"
        and re: "\<forall>c \<in> set new. \<exists>v v'. wr v (call_bytes c) = (v', call_count c, call_err c)"
        and m: "int m \<le> max (k - 40) 0" "concat (map call_bytes new) = replicate m 0x20"
               "(new = [] \<or> call_err (last new) = None) \<longrightarrow> int m = max (k - 40) 0"
        by (elim exE conjE) (rule that; assumption)
      have c0: "call_err call0 = None" "call_bytes call0 = replicate (nat (min k 40)) 0x20"
               "call_count call0 = c"
        using None by (simp_all add: call0_def chunk_def)
      have 1: "space_loop (recording wr) k ((w, calls), n, e0) =
         (if call0 # new \<noteq> [] \<and> call_err (last (call0 # new)) \<noteq> None then Return else Fallthrough)
         ((w', calls @ call0 # new), n + sum_list (map call_count (call0 # new)),
          if call0 # new = [] then e0 else call_err (last (call0 # new)))"
        using step run None c0 by (simp add: add.assoc)
      have 2: "\<forall>c \<in> set (butlast (call0 # new)). call_err c = None"
        using ok c0 by simp
      have 3: "\<forall>c \<in> set (call0 # new). \<exists>m. 1 \<le> m \<and> m \<le> 40 \<and> call_bytes c = replicate m 0x20"
        using sz c0 len by auto
      have 7: "\<forall>c \<in> set (call0 # new). \<exists>v v'. wr v (call_bytes c) = (v', call_count c, call_err c)"
        using re real by simp
      have 4: "int (nat (min k 40) + m) \<le> max k 0"
        using m(1) True by auto
      have 5: "concat (map call_bytes (call0 # new)) = replicate (nat (min k 40) + m) 0x20"
        using m(2) c0 by (simp add: replicate_add)
      have 6: "(call0 # new = [] \<or> call_err (last (call0 # new)) = None) \<longrightarrow>
                 int (nat (min k 40) + m) = max k 0"
        using m(3) c0 True by auto
      from 1 2 3 7 4 5 6 show ?thesis
        by (intro exI [of _ w'] exI [of _ "call0 # new"] conjI exI [of _ "nat (min k 40) + m"])
    qed
  qed
qed

subsection \<open>One call of the callback\<close>

lemma WriteTo_callback_error:
  "WriteTo_callback wr token (w, n, Some e) = Inr (w, n, Some e)"
  by (simp add: WriteTo_callback_def)



subsection \<open>After an error\<close>

lemma Tokens_EachToken_error:
  "Tokens_EachToken toks (WriteTo_callback wr) (w, n, Some e) = Inr (w, n, Some e)"
  by (induction toks) (simp_all add: WriteTo_callback_error)

subsection \<open>The log of a recording sink\<close>






subsection \<open>Writing to a buffer\<close>

lemma space_loop_buffer:
  "space_loop buffer_Write k (buf, n, None :: 'e option) =
     Fallthrough (buf @ replicate (nat k) 0x20, n + max k 0, None)"
proof (induction "nat k" arbitrary: k buf n rule: less_induct)
  case less
  show ?case
  proof (cases "0 < k")
    case False
    then show ?thesis by (simp add: space_loop_done)
  next
    case True
    have wr: "buffer_Write buf (replicate (nat (min k 40)) 0x20) =
                (buf @ replicate (nat (min k 40)) 0x20, min k 40, None :: 'e option)"
      using True by (simp add: buffer_Write_def)
    have "nat (k - 40) < nat k" using True by simp
    from less [OF this]
    have rest: "space_loop buffer_Write (k - 40) (buf', n', None :: 'e option) =
                  Fallthrough (buf' @ replicate (nat (k - 40)) 0x20, n' + max (k - 40) 0, None)"
      for buf' n' .
    have len: "nat (min k 40) + nat (k - 40) = nat k" "min k 40 + max (k - 40) 0 = k"
      using True by auto
    have "replicate (nat (min k 40)) (0x20 :: byte) @ replicate (nat (k - 40)) 0x20 =
            replicate (nat k) 0x20"
      by (simp add: replicate_add [symmetric] len del: replicate_add)
    then show ?thesis
      using True len
      by (simp add: space_loop_step [of k buffer_Write buf _ _ _ n None, OF True wr] rest)
  qed
qed

lemma WriteTo_callback_buffer:
  "WriteTo_callback buffer_Write (Some t) (buf, n, None) =
     Inr (buf @ token_text t, n + int (length (token_text t)), None)"
  by (simp add: WriteTo_callback_def space_loop_buffer buffer_Write_def token_text_def)

lemma Tokens_EachToken_buffer:
  "Tokens_EachToken (map Some toks) (WriteTo_callback buffer_Write) (buf, n, None) =
     Inr (buf @ concat (map token_text toks),
          n + int (length (concat (map token_text toks))), None)"
  by (induction toks arbitrary: buf n) (simp_all add: WriteTo_callback_buffer)

subsection \<open>The text of the tokens of a source\<close>

lemma takeWhile_replicate:
  "takeWhile (\<lambda>c. c = x) xs = replicate (length (takeWhile (\<lambda>c. c = x) xs)) x"
  by (induction xs) simp_all

lemma tokenize_text: "concat (map token_text (tokenize lexer eof src)) = src"
proof (induction lexer eof src rule: tokenize.induct)
  case (1 lexer eof src)
  define k where "k = length (takeWhile (\<lambda>c. c = 0x20) src)"
  define rest where "rest = drop k src"
  have "src = takeWhile (\<lambda>c. c = 0x20) src @ dropWhile (\<lambda>c. c = 0x20) src"
    by simp
  then have src: "src = replicate k 0x20 @ rest"
    using takeWhile_replicate [of "0x20" src]
    by (simp add: k_def rest_def dropWhile_eq_drop)
  note step = tokenize.simps [of lexer eof src, unfolded Let_def, folded k_def, folded rest_def]
  show ?case
  proof (cases "rest = []")
    case True
    then have "tokenize lexer eof src = [\<lparr>Type = eof, Bytes = [], SpacesBefore = int k\<rparr>]"
      by (simp add: step)
    with True src show ?thesis by (simp add: token_text_def)
  next
    case False
    obtain ty len where lx: "lexer rest = (ty, len)" by (cases "lexer rest") auto
    define m where "m = max 1 (min len (length rest))"
    have unfold: "tokenize lexer eof src =
        \<lparr>Type = ty, Bytes = take m rest, SpacesBefore = int k\<rparr> # tokenize lexer eof (drop m rest)"
      using False lx by (simp add: step m_def)
    have "concat (map token_text (tokenize lexer eof (drop m rest))) = drop m rest"
      using False lx by (intro "1.IH" [of k rest ty len m]) (simp_all add: k_def rest_def m_def)
    with unfold have "concat (map token_text (tokenize lexer eof src)) =
        token_text \<lparr>Type = ty, Bytes = take m rest, SpacesBefore = int k\<rparr> @ drop m rest"
      by simp
    also have "\<dots> = replicate k 0x20 @ rest"
      by (simp add: token_text_def)
    finally show ?thesis using src by simp
  qed
qed

subsection \<open>Sinks that never fail\<close>



subsection \<open>Evaluating the examples\<close>

lemmas run_defs = WriteTo_def WriteTo_callback_def Token_EachToken_def space_loop.simps
  spaces_def recording_def limited_Write_def short_Write_def buffer_Write_def discard_Write_def
  counting_def int_fits_def
  tokA_def tokB_def tokC_def failing_tree_def TokenSeq_Tokens_def append_token_def
  TokenSeqEmpty_def

subsection \<open>One token\<close>

text \<open>
  Claim C3. For a token with \<open>SpacesBefore = k\<close>, \<open>k \<ge> 0\<close>, and bytes \<open>b\<close>, the
  callback of \<open>WriteTo\<close> appends to the buffer exactly \<open>k\<close> space characters followed by
  \<open>b\<close> and adds \<open>k + length b\<close> to the count, whatever the buffer and the count were
  before; on a tree of that one token \<open>WriteTo\<close> writes exactly \<open>k\<close> spaces and then
  \<open>b\<close>. This holds for every \<open>k\<close>, below, at and above the 40 bytes of the scratch
  buffer, and also for the empty \<open>b\<close>.
\<close>

theorem WriteTo_spaces_then_bytes:
  assumes "0 \<le> SpacesBefore t"
  shows "WriteTo_callback buffer_Write (Some t) (buf, n, None :: 'e option) =
           Inr (buf @ replicate (nat (SpacesBefore t)) 0x20 @ Bytes t,
                n + SpacesBefore t + int (length (Bytes t)), None) \<and>
         WriteTo (Some [TokenPtr (Some t)]) buffer_Write [] =
           Inr (replicate (nat (SpacesBefore t)) 0x20 @ Bytes t,
                SpacesBefore t + int (length (Bytes t)), None :: 'e option)"
  using assms
  by (simp add: WriteTo_def Token_EachToken_def WriteTo_callback_buffer token_text_def)

theorem WriteTo_spaces_then_bytes_witness:
  "(0 :: int) \<le> SpacesBefore \<lparr>Type = 0 :: nat, Bytes = [], SpacesBefore = 41\<rparr> \<and>
   WriteTo (Some [TokenPtr (Some \<lparr>Type = 0 :: nat, Bytes = [], SpacesBefore = 41\<rparr>)])
     buffer_Write [] = Inr (replicate 41 0x20, 41, None :: sink_error option)"
  using WriteTo_spaces_then_bytes [where ?'e = sink_error,
      of "\<lparr>Type = 0 :: nat, Bytes = [], SpacesBefore = 41\<rparr>" "[]" 0]
  by simp

subsection \<open>Negative space counts\<close>

text \<open>
  Claim C9. For a token with a negative \<open>SpacesBefore\<close> the callback of \<open>WriteTo\<close> does
  what it does for the same token with \<open>SpacesBefore = 0\<close>, in every state: on a tree of
  that one token, \<open>WriteTo\<close> does not panic, issues the single \<open>Write\<close> call for the
  token's bytes and no call for spaces, and returns the count and the error of that
  one call.
\<close>

theorem WriteTo_negative_spaces:
  assumes "SpacesBefore t < 0"
  shows "WriteTo_callback wr (Some t) st = WriteTo_callback wr (Some (t\<lparr>SpacesBefore := 0\<rparr>)) st \<and>
         WriteTo (Some [TokenPtr (Some t)]) wr w =
           (case wr w (Bytes t) of (w', c, e) \<Rightarrow> Inr (w', c, e)) \<and>
         WriteTo (Some [TokenPtr (Some t)]) (recording wr) (w, []) =
           (case wr w (Bytes t) of (w', c, e) \<Rightarrow> Inr ((w', [Call (Bytes t) c e]), c, e))"
  using assms
  by (cases st)
     (simp add: WriteTo_def WriteTo_callback_def Token_EachToken_def space_loop_done recording_def
       split: prod.splits)

theorem WriteTo_negative_spaces_witness:
  "SpacesBefore \<lparr>Type = 0 :: nat, Bytes = [0x61], SpacesBefore = - 3\<rparr> < 0 \<and>
   WriteTo (Some [TokenPtr (Some \<lparr>Type = 0 :: nat, Bytes = [0x61], SpacesBefore = - 3\<rparr>)])
     buffer_Write [] = Inr ([0x61], 1, None :: sink_error option)"
  using WriteTo_negative_spaces [of "\<lparr>Type = 0 :: nat, Bytes = [0x61], SpacesBefore = - 3\<rparr>"
      buffer_Write "([], 0, None :: sink_error option)" "[]"]
  by (simp add: buffer_Write_def)

subsection \<open>The chunks of the space loop\<close>

lemma WriteTo_callback_log:
  assumes "exit_state (space_loop (recording wr) (SpacesBefore t) ((w, []), n, None)) =
             ((w', calls), n', err')"
    and "WriteTo_callback (recording wr) (Some t) ((w, []), n, None) = Inr ((v, log), m, e)"
  shows "log = calls \<or> (\<exists>c. log = calls @ [Call (Bytes t) c e])"
proof (cases "space_loop (recording wr) (SpacesBefore t) ((w, []), n, None)")
  case (Return st)
  with assms show ?thesis by (simp add: WriteTo_callback_def)
next
  case (Fallthrough st)
  with assms(1) have st: "st = ((w', calls), n', err')" by simp
  obtain w2 c e2 where "wr w' (Bytes t) = (w2, c, e2)" by (cases "wr w' (Bytes t)") auto
  with assms(2) Fallthrough st show ?thesis
    by (auto simp: WriteTo_callback_def recording_def)
qed

text \<open>
  Claim C8. Every \<open>Write\<close> call that the loop over \<open>spacesBefore\<close> issues for a
  token, seen through a recording sink around any writer, carries at least 1 and at
  most 40 bytes, all of them spaces; for \<open>SpacesBefore \<ge> 0\<close> the lengths of these chunks
  add up to exactly \<open>SpacesBefore\<close> when the loop has run to its end, that is when no
  call of it has reported an error. The calls of the callback for the token are these
  chunks and, after them, at most the one call for the token's bytes.
\<close>

theorem space_loop_chunks:
  assumes "exit_state (space_loop (recording wr) (SpacesBefore t) ((w, []), n, None)) =
             ((w', calls), n', err')"
  shows "(\<forall>c \<in> set calls. 1 \<le> length (call_bytes c) \<and> length (call_bytes c) \<le> 40 \<and>
            set (call_bytes c) \<subseteq> {0x20}) \<and>
         (0 \<le> SpacesBefore t \<and> err' = None \<longrightarrow>
            int (sum_list (map (length \<circ> call_bytes) calls)) = SpacesBefore t) \<and>
         (\<forall>v log m e.
            WriteTo_callback (recording wr) (Some t) ((w, []), n, None) = Inr ((v, log), m, e) \<longrightarrow>
            log = calls \<or> (\<exists>c. log = calls @ [Call (Bytes t) c e]))"
proof -
  define k where "k = SpacesBefore t"
  obtain w1 new m where
    run: "space_loop (recording wr) k ((w, []), n, None) =
            (if new \<noteq> [] \<and> call_err (last new) \<noteq> None then Return else Fallthrough)
              ((w1, [] @ new), n + sum_list (map call_count new),
               if new = [] then None else call_err (last new))"
    and sz: "\<forall>c \<in> set new. \<exists>m. 1 \<le> m \<and> m \<le> 40 \<and> call_bytes c = replicate m 0x20"
    and m: "int m \<le> max k 0" "concat (map call_bytes new) = replicate m 0x20"
           "(new = [] \<or> call_err (last new) = None) \<longrightarrow> int m = max k 0"
    using space_loop_recording [of wr k w "[]" n None]
    by (elim exE conjE) (rule that; assumption)
  from assms have "((w1, [] @ new), n + sum_list (map call_count new),
      if new = [] then None else call_err (last new)) = ((w', calls), n', err')"
    unfolding k_def [symmetric] run exit_state_if by auto
  then have calls: "calls = new"
    and err: "err' = (if new = [] then None else call_err (last new))"
    by auto
  have "length (concat (map call_bytes new)) = sum_list (map (length \<circ> call_bytes) new)"
    by (simp add: length_concat)
  with m(2) have total: "sum_list (map (length \<circ> call_bytes) new) = m" by simp
  from sz have "\<forall>c \<in> set new. 1 \<le> length (call_bytes c) \<and> length (call_bytes c) \<le> 40 \<and>
                  set (call_bytes c) \<subseteq> {0x20}"
    by fastforce
  moreover have "0 \<le> k \<and> err' = None \<longrightarrow> int (sum_list (map (length \<circ> call_bytes) new)) = k"
    using m(3) err total by auto
  moreover have "\<forall>v log m e.
      WriteTo_callback (recording wr) (Some t) ((w, []), n, None) = Inr ((v, log), m, e) \<longrightarrow>
      log = calls \<or> (\<exists>c. log = calls @ [Call (Bytes t) c e])"
    using WriteTo_callback_log [OF assms] by blast
  ultimately show ?thesis by (simp add: calls k_def)
qed

theorem space_loop_chunks_witness:
  "exit_state (space_loop (recording discard_Write) (SpacesBefore tokD)
      (((), []), 0, None :: sink_error option)) =
     (((), [Call (replicate 40 0x20) 40 None, Call (replicate 40 0x20) 40 None,
            Call [0x20] 1 None]), 81, None) \<and>
   int (sum_list (map (length \<circ> call_bytes)
     [Call (replicate 40 0x20) 40 None, Call (replicate 40 0x20) 40 None,
      Call [0x20] 1 (None :: sink_error option)])) = SpacesBefore tokD \<and>
   WriteTo_callback (recording discard_Write) (Some tokD) (((), []), 0, None) =
     Inr (((), [Call (replicate 40 0x20) 40 None, Call (replicate 40 0x20) 40 None,
            Call [0x20] 1 None] @ [Call (Bytes tokD) 1 None]), 82, None :: sink_error option)"
  using space_loop_chunks [of discard_Write tokD "()" 0 "()"
      "[Call (replicate 40 0x20) 40 None, Call (replicate 40 0x20) 40 None,
        Call [0x20] 1 (None :: sink_error option)]" 81 None]
  by (simp add: run_defs tokD_def)

subsection \<open>No tokens\<close>

text \<open>
  Claim C7. For a tree whose flattened token sequence is empty, \<open>WriteTo\<close> returns the
  count 0 and no error and leaves the state of the sink as it was; a recording sink has
  an empty log afterwards, so no \<open>Write\<close> call has been issued.
\<close>

theorem WriteTo_no_tokens:
  assumes "TokenSeq_Tokens ts = Inr []"
  shows "WriteTo ts wr w = Inr (w, 0, None) \<and>
         WriteTo ts (recording wr) (w, []) = Inr ((w, []), 0, None)"
  using assms by (simp add: WriteTo_tokens)

theorem WriteTo_no_tokens_witness:
  "TokenSeq_Tokens (Some [TokenSeqPtr None, TokensVal [], TokenSeqPtr (Some TokenSeqEmpty)]) =
     (Inr [] :: panic + nat Token option list) \<and>
   WriteTo (Some [TokenSeqPtr None, TokensVal ([] :: nat Token option list),
       TokenSeqPtr (Some TokenSeqEmpty)]) (recording limited_Write) (([], 0), []) =
     Inr ((([], 0), []), 0, None)"
  using WriteTo_no_tokens [of "Some [TokenSeqPtr None, TokensVal ([] :: nat Token option list),
       TokenSeqPtr (Some TokenSeqEmpty)]" limited_Write "([], 0)"]
  by (simp add: run_defs)

subsection \<open>Failure of the sink\<close>






subsection \<open>The count returned\<close>



subsection \<open>Round trip\<close>

text \<open>
  Claim C2. The tokenizer is modelled from the spec. For a tree that flattens to the
  tokens of the source bytes \<open>B\<close>, whatever the lexer and with no edit in between,
  \<open>WriteTo\<close> into an empty buffer returns without a panic and with no error, leaves
  exactly the bytes \<open>B\<close> in the buffer, every space run included, and returns the length
  of \<open>B\<close> as its count.
\<close>

theorem WriteTo_round_trip:
  assumes "TokenSeq_Tokens ts = Inr (map Some (tokenize lexer eof B))"
  shows "WriteTo ts buffer_Write [] = Inr (B, int (length B), None :: 'e option)"
  using assms by (simp add: WriteTo_tokens Tokens_EachToken_buffer tokenize_text)

theorem WriteTo_round_trip_witness:
  "TokenSeq_Tokens
     (Some [TokenPtr (Some \<lparr>Type = 7, Bytes = [0x61], SpacesBefore = 0\<rparr>),
            TokenSeqPtr (Some [TokensVal
              [Some \<lparr>Type = 7, Bytes = [0x62], SpacesBefore = 2\<rparr>,
               Some \<lparr>Type = 0, Bytes = [], SpacesBefore = 1\<rparr>]])]) =
     Inr (map Some (tokenize (\<lambda>rest. (7 :: nat, 1)) 0 [0x61, 0x20, 0x20, 0x62, 0x20])) \<and>
   WriteTo
     (Some [TokenPtr (Some \<lparr>Type = 7 :: nat, Bytes = [0x61], SpacesBefore = 0\<rparr>),
            TokenSeqPtr (Some [TokensVal
              [Some \<lparr>Type = 7, Bytes = [0x62], SpacesBefore = 2\<rparr>,
               Some \<lparr>Type = 0, Bytes = [], SpacesBefore = 1\<rparr>]])])
     buffer_Write [] = Inr ([0x61, 0x20, 0x20, 0x62, 0x20], 5, None :: sink_error option)"
  using WriteTo_round_trip
    [of "Some [TokenPtr (Some \<lparr>Type = 7, Bytes = [0x61], SpacesBefore = 0\<rparr>),
            TokenSeqPtr (Some [TokensVal
              [Some \<lparr>Type = 7, Bytes = [0x62], SpacesBefore = 2\<rparr>,
               Some \<lparr>Type = 0, Bytes = [], SpacesBefore = 1\<rparr>]])]"
        "\<lambda>rest. (7 :: nat, 1)" 0 "[0x61, 0x20, 0x20, 0x62, 0x20]"]
  by (simp add: tokenize.simps TokenSeq_Tokens_def append_token_def Token_EachToken_def)

section \<open>Properties of the transformer chain\<close>

lemma chain_range_fold: "chain_range c body = fold TransformBody c body"
  by (induction c arbitrary: body) simp_all


text \<open>
  Claim C6. \<open>Chain [t1, ..., tn]\<close> transforms a body by applying \<open>t1\<close> first and \<open>tn\<close>
  last, each to the result of the one before, none left out: \<open>fold\<close> composes the
  transformers in list order. The empty chain returns the body as it is, a chain
  extended at its end applies the new transformer to the result of the chain, and a
  chain that holds the same transformer twice applies it twice.
\<close>

theorem Chain_TransformBody:
  "TransformBody (Chain ts) body = fold TransformBody ts body \<and>
   TransformBody (Chain []) body = body \<and>
   TransformBody (Chain (ts @ [t])) body = TransformBody t (TransformBody (Chain ts) body) \<and>
   TransformBody (Chain [t, t]) body = TransformBody t (TransformBody t body)"
  by (simp add: Chain_def chain_range_fold)


end
